theory Spec2Isabelle
  imports Complex_Main "HOL-Library.Sublist" "HOL-Library.Multiset"
begin

section \<open>Data model\<close>

text \<open>
  \<^verbatim>\<open>rch.HostSpec\<close> as the two programs use it: \<^verbatim>\<open>h.Hostname\<close>, \<^verbatim>\<open>h.Slots\<close>
  (compared with and assigned from an \<^verbatim>\<open>int\<close>) and \<^verbatim>\<open>h.PublicAddr\<close>.
\<close>

record HostSpec =
  Hostname :: string
  Slots :: int
  PublicAddr :: string

text \<open>
  Go errors. \<^verbatim>\<open>errors.New(msg)\<close> and the errors of the external collaborators are
  \<open>ErrorString\<close>; the sentinel \<^verbatim>\<open>context.DeadlineExceeded\<close> is a constructor of its
  own, since \<^verbatim>\<open>simpleRun\<close> compares against it by identity; a run-time panic
  (index out of range) is \<open>Panic\<close>.
\<close>

datatype error = ErrorString string | DeadlineExceeded | Panic string

section \<open>run-experiments: reschedule\<close>

text \<open>
  The loop \<^verbatim>\<open>for i, p := range partition\<close> of \<^verbatim>\<open>reschedule\<close>: \<open>i\<close> is the loop
  index, the third argument the rest of the partition still to visit, \<open>workers\<close> the
  slice built so far. \<^verbatim>\<open>w := hosts[i]\<close> copies the struct; indexing out of range
  panics.
\<close>

fun reschedule_loop :: "HostSpec list \<Rightarrow> nat \<Rightarrow> int list \<Rightarrow> HostSpec list \<Rightarrow> error + HostSpec list" where
  "reschedule_loop hosts i [] workers = Inr workers"
| "reschedule_loop hosts i (p # ps) workers =
     (if length hosts \<le> i then Inl (Panic ''index out of range'')
      else let w = hosts ! i in
        if Slots w < p then Inl (ErrorString ''host slots not enough'')
        else reschedule_loop hosts (Suc i) ps (workers @ [w\<lparr>Slots := p\<rparr>]))"

definition reschedule :: "HostSpec list \<Rightarrow> int list \<Rightarrow> error + HostSpec list" where
  "reschedule hosts part =
     (if length hosts < length part then Inl (ErrorString ''hosts not enough'')
      else reschedule_loop hosts 0 part [])"

section \<open>run-experiments: grep\<close>

text \<open>\<^verbatim>\<open>strings.Contains(s, substr)\<close>: \<open>substr\<close> occurs in \<open>s\<close> at some offset.\<close>

fun Contains :: "string \<Rightarrow> string \<Rightarrow> bool" where
  "Contains [] substr = (substr = [])"
| "Contains (c # s) substr = (prefix substr (c # s) \<or> Contains s substr)"

fun grep_loop :: "string \<Rightarrow> string list \<Rightarrow> string list \<Rightarrow> string list" where
  "grep_loop pattern [] lines = lines"
| "grep_loop pattern (line # input) lines =
     (if Contains line pattern then grep_loop pattern input (lines @ [line])
      else grep_loop pattern input lines)"

definition grep :: "string \<Rightarrow> string list \<Rightarrow> string list" where
  "grep pattern input = grep_loop pattern input []"

section \<open>kungfu-run: simpleRun\<close>

text \<open>
  How an invocation of \<^verbatim>\<open>simpleRun\<close> ends: it returns to \<^verbatim>\<open>main\<close>, or
  \<^verbatim>\<open>utils.ExitErr(err)\<close> ends the process with the error.
\<close>

datatype outcome = Returned | ExitErr error

text \<open>
  \<^verbatim>\<open>sch.ForHost\<close> and \<^verbatim>\<open>runner.LocalRunAll\<close> are external collaborators, taken as
  parameters; \<open>None\<close> is the \<^verbatim>\<open>nil\<close> error. \<^verbatim>\<open>utils.Measure(f)\<close> returns the
  error of \<open>f\<close> with the time it took.
\<close>

definition simpleRun :: "(string \<Rightarrow> 'p list \<Rightarrow> 'p list) \<Rightarrow> ('p list \<Rightarrow> error option) \<Rightarrow> string \<Rightarrow> 'p list \<Rightarrow> outcome" where
  "simpleRun ForHost LocalRunAll selfIP ps =
     (let myPs = ForHost selfIP ps in
      if length myPs \<le> 0 then Returned
      else (case LocalRunAll myPs of
              None \<Rightarrow> Returned
            | Some err \<Rightarrow> if err \<noteq> DeadlineExceeded then ExitErr err else Returned))"

section \<open>run-experiments: parseResult\<close>

text \<open>
  \<^verbatim>\<open>Result\<close> holds two \<^verbatim>\<open>float32\<close> fields. The type \<open>'f\<close> stands for \<^verbatim>\<open>float32\<close>;
  its zero is the zero value of the Go type. Which \<^verbatim>\<open>float32\<close> a decimal token
  denotes is decided by \<^verbatim>\<open>strconv.ParseFloat\<close>, taken as a parameter \<open>pf\<close>
  (\<open>None\<close> when the conversion fails).
\<close>

record 'f Result =
  Mean :: 'f
  Conf :: 'f

text \<open>
  \<^verbatim>\<open>fmt.Sscanf\<close> as the package documents it, for formats of literal text, spaces
  and the verb \<^verbatim>\<open>%f\<close> without a width, such as the one of \<^verbatim>\<open>parseResult\<close>, over
  ASCII input: literal text of the format must match the input; a run of spaces in the
  format matches one or more spaces of the input, or its end; \<^verbatim>\<open>%f\<close> skips leading
  spaces, reads a floating-point token and converts it. The scan stops at the first
  error; the operands stored before it keep their new values.
\<close>

definition isSpace :: "char \<Rightarrow> bool" where
  "isSpace r = (r \<in> set [CHR '' '', CHR 0x09, CHR 0x0A, CHR 0x0B, CHR 0x0C, CHR 0x0D])"

text \<open>
  \<^verbatim>\<open>SkipSpace\<close> with \<^verbatim>\<open>nlIsSpace\<close> unset, as \<^verbatim>\<open>Sscanf\<close> has it: a newline in the
  input is an error (\<open>None\<close>); the result is the input left.
\<close>

fun SkipSpace :: "string \<Rightarrow> string option" where
  "SkipSpace [] = Some []"
| "SkipSpace (r # inp) =
     (if r = CHR 0x0D \<and> take 1 inp = [CHR 0x0A] then SkipSpace inp
      else if r = CHR 0x0A then None
      else if \<not> isSpace r then Some (r # inp)
      else SkipSpace inp)"

text \<open>
  \<^verbatim>\<open>accept(ok)\<close>: when the next character is one of \<open>ok\<close> it moves to the token
  buffer. The scanner's state is the pair of the buffer and the input left.
\<close>

definition accept :: "string \<Rightarrow> string \<times> string \<Rightarrow> bool \<times> string \<times> string" where
  "accept ok st =
     (case snd st of
        [] \<Rightarrow> (False, st)
      | r # inp \<Rightarrow> if r \<in> set ok then (True, (fst st @ [r], inp)) else (False, st))"

text \<open>\<^verbatim>\<open>s.accept(a) && s.accept(b) && s.accept(c)\<close>, left to right.\<close>

definition accept3 :: "string \<Rightarrow> string \<Rightarrow> string \<Rightarrow> string \<times> string \<Rightarrow> bool \<times> string \<times> string" where
  "accept3 a b c st =
     (case accept a st of
        (False, st1) \<Rightarrow> (False, st1)
      | (True, st1) \<Rightarrow>
          (case accept b st1 of
             (False, st2) \<Rightarrow> (False, st2)
           | (True, st2) \<Rightarrow> accept c st2))"

text \<open>\<^verbatim>\<open>for s.accept(digits) { }\<close>.\<close>

definition accept_digits :: "string \<times> string \<Rightarrow> string \<times> string" where
  "accept_digits st =
     (fst st @ takeWhile (\<lambda>r. r \<in> set ''0123456789'') (snd st),
      dropWhile (\<lambda>r. r \<in> set ''0123456789'') (snd st))"

text \<open>
  \<^verbatim>\<open>floatToken\<close>: an optional NaN; a sign; an optional Inf; digits; a period and
  digits; an exponent with sign and digits. It returns the token and the input left.
\<close>

definition floatToken :: "string \<Rightarrow> string \<times> string" where
  "floatToken inp =
     (case accept3 ''nN'' ''aA'' ''nN'' ([], inp) of
        (True, st) \<Rightarrow> st
      | (False, st0) \<Rightarrow>
          (let st1 = snd (accept ''+-'' st0) in
           case accept3 ''iI'' ''nN'' ''fF'' st1 of
             (True, st) \<Rightarrow> st
           | (False, st2) \<Rightarrow>
               (let st3 = accept_digits st2;
                    st4 = (case accept ''.'' st3 of
                             (True, st) \<Rightarrow> accept_digits st
                           | (False, st) \<Rightarrow> st)
                in case accept ''eEp'' st4 of
                     (True, st5) \<Rightarrow> accept_digits (snd (accept ''+-'' st5))
                   | (False, st5) \<Rightarrow> st5)))"

text \<open>
  Scanning one \<^verbatim>\<open>*float32\<close> operand for the verb \<^verbatim>\<open>%f\<close>: skip spaces, fail at the
  end of the input, read the token, convert it. \<open>None\<close> is a scan error.
\<close>

definition scanFloat :: "(string \<Rightarrow> 'f option) \<Rightarrow> string \<Rightarrow> ('f \<times> string) option" where
  "scanFloat pf inp =
     (case SkipSpace inp of
        None \<Rightarrow> None
      | Some [] \<Rightarrow> None
      | Some (r # inp1) \<Rightarrow>
          (case floatToken (r # inp1) of
             (tok, inp2) \<Rightarrow>
               (case pf tok of None \<Rightarrow> None | Some v \<Rightarrow> Some (v, inp2))))"

text \<open>
  \<^verbatim>\<open>doScanf\<close>: \<open>n\<close> is the number of operands not yet stored; the result lists the
  values stored, in order. A format with a newline, a width or another verb is outside
  what is modelled and scans nothing more.
\<close>

function doScanf :: "(string \<Rightarrow> 'f option) \<Rightarrow> string \<Rightarrow> string \<Rightarrow> nat \<Rightarrow> 'f list" where
  "doScanf pf [] inp n = []"
| "doScanf pf (c # format) inp n =
     (if isSpace c then
        (if CHR 0x0A \<in> set (c # takeWhile isSpace format) then []
         else case inp of
           [] \<Rightarrow> doScanf pf (dropWhile isSpace format) [] n
         | r # inp1 \<Rightarrow>
             if \<not> isSpace r \<or> r = CHR 0x0A then []
             else doScanf pf (dropWhile isSpace format)
                    (dropWhile (\<lambda>r. isSpace r \<and> r \<noteq> CHR 0x0A) inp1) n)
      else if c = CHR ''%'' then
        (if take 1 format = ''f'' \<and> 0 < n then
           (case scanFloat pf inp of
              None \<Rightarrow> []
            | Some (v, inp1) \<Rightarrow> v # doScanf pf (drop 1 format) inp1 (n - 1))
         else [])
      else
        (case inp of
           [] \<Rightarrow> []
         | r # inp1 \<Rightarrow> if r = c then doScanf pf format inp1 n else []))"
  by pat_completeness auto
termination
  by (relation "measure (\<lambda>(pf, format, inp, n). length format)")
     (auto simp: less_Suc_eq_le length_dropWhile_le)

text \<open>
  \<^verbatim>\<open>parseResult\<close> passes \<^verbatim>\<open>&r.Mean\<close> and \<^verbatim>\<open>&r.Conf\<close> and drops what \<^verbatim>\<open>Sscanf\<close>
  returns.
\<close>

definition parseResult :: "(string \<Rightarrow> 'f option) \<Rightarrow> string \<Rightarrow> 'f Result \<Rightarrow> 'f Result" where
  "parseResult pf line r =
     (case doScanf pf ''Img/sec per /gpu:0: %f +-%f'' line 2 of
        [] \<Rightarrow> r
      | [m] \<Rightarrow> r\<lparr>Mean := m\<rparr>
      | m # c # _ \<Rightarrow> r\<lparr>Mean := m, Conf := c\<rparr>)"

section \<open>run-experiments: runExperiment\<close>

datatype KungFu_AllReduceAlgo = KungFu_Simple | KungFu_Ring | KungFu_Clique | KungFu_Tree

record 'f Record =
  Partition :: "int list"
  Algo :: KungFu_AllReduceAlgo
  Result :: "'f Result"

record JobConfig =
  TaskCount :: int
  HostList :: string
  Prog :: string
  Args :: "string list"

text \<open>What \<^verbatim>\<open>runExperiment\<close> reads of one result of the remote runner.\<close>

record RunResult =
  Stdout :: "string list"

text \<open>
  The external collaborators of \<^verbatim>\<open>runExperiment\<close>: \<^verbatim>\<open>rch.TotalCap\<close>, the
  \<^verbatim>\<open>String\<close> method of a host, \<^verbatim>\<open>jc.CreateProcs\<close>, \<^verbatim>\<open>runner.RemoteRunAll\<close> and
  \<^verbatim>\<open>strconv.ParseFloat\<close>. What a remote run returns is not a function of the
  processes: it is indexed by the experiment (the position of its goroutine in the
  sweep) and gets the timeout of the context. \<open>'p\<close> is the type of a process.
\<close>

record ('p, 'f) env =
  TotalCap :: "HostSpec list \<Rightarrow> int"
  HostSpec_String :: "HostSpec \<Rightarrow> string"
  CreateProcs :: "JobConfig \<Rightarrow> KungFu_AllReduceAlgo \<Rightarrow> error + 'p list"
  RemoteRunAll :: "nat \<Rightarrow> int \<Rightarrow> 'p list \<Rightarrow> RunResult list \<times> error option"
  ParseFloat :: "string \<Rightarrow> 'f option"

text \<open>\<^verbatim>\<open>strings.Join(ss, sep)\<close>.\<close>

fun Join :: "string list \<Rightarrow> string \<Rightarrow> string" where
  "Join [] sep = []"
| "Join [s] sep = s"
| "Join (s # ss) sep = s @ sep @ Join ss sep"

definition fmtHostSpecs :: "('p, 'f) env \<Rightarrow> HostSpec list \<Rightarrow> string" where
  "fmtHostSpecs E hosts = Join (map (HostSpec_String E) hosts) '',''"

text \<open>
  The loop over the results of the remote run: the first result with a matching line
  is parsed into \<open>res\<close>, and the loop ends.
\<close>

fun scrape :: "('p, 'f) env \<Rightarrow> RunResult list \<Rightarrow> 'f Result \<Rightarrow> 'f Result" where
  "scrape E [] res = res"
| "scrape E (r # results) res =
     (let info = grep ''Img/sec per /gpu:0'' (Stdout r) in
      if length info > 0 then parseResult (ParseFloat E) (info ! 0) res
      else scrape E results res)"

text \<open>
  \<open>k\<close> names the experiment; \<^verbatim>\<open>utils.Measure\<close> passes the error of its argument on.
\<close>

definition runExperiment :: "('p, 'f :: zero) env \<Rightarrow> nat \<Rightarrow> HostSpec list \<Rightarrow> string \<Rightarrow> string list \<Rightarrow>
    KungFu_AllReduceAlgo \<Rightarrow> int list \<Rightarrow> int \<Rightarrow> error + 'f Result" where
  "runExperiment E k hosts prog args algo part timeout =
     (case reschedule hosts part of
        Inl err \<Rightarrow> Inl err
      | Inr hosts' \<Rightarrow>
          (let jc = \<lparr>TaskCount = TotalCap E hosts', HostList = fmtHostSpecs E hosts',
                      Prog = prog, Args = args\<rparr>
           in case CreateProcs E jc algo of
                Inl err \<Rightarrow> Inl err
              | Inr ps \<Rightarrow>
                  (case RemoteRunAll E k timeout ps of
                     (results, err) \<Rightarrow>
                       (let res = scrape E results \<lparr>Mean = 0, Conf = 0\<rparr>
                        in case err of Some e \<Rightarrow> Inl e | None \<Rightarrow> Inr res))))"

section \<open>run-experiments: runAllExperiments\<close>

text \<open>
  The goroutines of \<^verbatim>\<open>runAllExperiments\<close> share the channel \<^verbatim>\<open>pool\<close>, the mutexes
  \<^verbatim>\<open>banker\<close> and \<^verbatim>\<open>lock\<close> and the slice \<^verbatim>\<open>records\<close>. Every access to them is a
  channel or mutex operation or happens under \<^verbatim>\<open>lock\<close>, so an execution is an
  interleaving of the atomic steps of the goroutines. The program counter of a
  goroutine names the step it takes next.
\<close>

datatype pc =
    ReqLock      \<comment> \<open>\<^verbatim>\<open>banker.Lock()\<close>, first statement of an iteration of \<^verbatim>\<open>requireN\<close>\<close>
  | ReqUnlock    \<comment> \<open>\<^verbatim>\<open>banker.Unlock()\<close>\<close>
  | ReqCheck     \<comment> \<open>\<^verbatim>\<open>if len(pool) >= n\<close>\<close>
  | ReqTake      \<comment> \<open>\<^verbatim>\<open>for i := 0; i < n; i++ { hs = append(hs, <-pool) }\<close>, one iteration\<close>
  | ReqGot       \<comment> \<open>\<^verbatim>\<open>if got != nil { return got }\<close>\<close>
  | ReqTick      \<comment> \<open>\<^verbatim>\<open><-tk.C\<close>\<close>
  | Experiment   \<comment> \<open>\<^verbatim>\<open>res, err := runExperiment(...)\<close> and \<^verbatim>\<open>if err != nil\<close>\<close>
  | RecLock      \<comment> \<open>\<^verbatim>\<open>lock.Lock()\<close>\<close>
  | RecAppend    \<comment> \<open>\<^verbatim>\<open>records = append(records, r)\<close>\<close>
  | RecUnlock    \<comment> \<open>\<^verbatim>\<open>lock.Unlock()\<close>\<close>
  | ReturnAll    \<comment> \<open>the deferred \<^verbatim>\<open>returnAll(hs)\<close>: \<^verbatim>\<open>pool <- h\<close>, one iteration\<close>
  | Done         \<comment> \<open>after the deferred \<^verbatim>\<open>wg.Done()\<close>\<close>

text \<open>
  The local variables of one goroutine: its arguments \<^verbatim>\<open>algo\<close> and \<^verbatim>\<open>partition\<close>,
  the slice \<open>got\<close> that \<^verbatim>\<open>requireN\<close> fills (nil is the empty list), \<open>hs\<close>, the index
  \<open>ret\<close> of the loop of \<^verbatim>\<open>returnAll\<close>, and \<open>res\<close>.
\<close>

record 'f goroutine =
  algo :: KungFu_AllReduceAlgo
  partition :: "int list"
  pc :: pc
  got :: "HostSpec list"
  hs :: "HostSpec list"
  ret :: nat
  res :: "'f Result option"

text \<open>
  The shared state: the buffer of the channel \<^verbatim>\<open>pool\<close>, oldest first, and its
  capacity; whether each mutex is held; \<^verbatim>\<open>records\<close>; the goroutines, in the order
  \<^verbatim>\<open>run\<close> started them; and the arguments of \<^verbatim>\<open>runAllExperiments\<close> the closures read.
\<close>

record 'f sched =
  pool :: "HostSpec list"
  capacity :: nat
  banker :: bool
  lock :: bool
  records :: "'f Record list"
  goroutines :: "'f goroutine list"
  prog :: string
  args :: "string list"
  timeout :: int

text \<open>
  One atomic step of goroutine \<open>i\<close>; \<open>None\<close> when it cannot step: it is blocked on a
  mutex, on a receive from the empty channel or on a send to the full channel, or it
  has ended.
\<close>

definition step :: "('p, 'f :: zero) env \<Rightarrow> nat \<Rightarrow> 'f sched \<Rightarrow> 'f sched option" where
  "step E i s =
     (if length (goroutines s) \<le> i then None
      else
        let g = goroutines s ! i;
            n = length (partition g);
            next = (\<lambda>g' s'. Some (s'\<lparr>goroutines := (goroutines s')[i := g']\<rparr>))
        in case pc g of
          ReqLock \<Rightarrow>
            if banker s then None else next (g\<lparr>pc := ReqUnlock\<rparr>) (s\<lparr>banker := True\<rparr>)
        | ReqUnlock \<Rightarrow> next (g\<lparr>pc := ReqCheck\<rparr>) (s\<lparr>banker := False\<rparr>)
        | ReqCheck \<Rightarrow>
            if length (pool s) \<ge> n then next (g\<lparr>pc := ReqTake, got := []\<rparr>) s
            else next (g\<lparr>pc := ReqGot, got := []\<rparr>) s
        | ReqTake \<Rightarrow>
            if length (got g) < n then
              (case pool s of
                 [] \<Rightarrow> None
               | h # rest \<Rightarrow> next (g\<lparr>got := got g @ [h]\<rparr>) (s\<lparr>pool := rest\<rparr>))
            else next (g\<lparr>pc := ReqGot\<rparr>) s
        | ReqGot \<Rightarrow>
            if got g \<noteq> [] then next (g\<lparr>pc := Experiment, hs := got g\<rparr>) s
            else next (g\<lparr>pc := ReqTick\<rparr>) s
        | ReqTick \<Rightarrow> next (g\<lparr>pc := ReqLock\<rparr>) s
        | Experiment \<Rightarrow>
            (case runExperiment E i (hs g) (prog s) (args s) (algo g) (partition g) (timeout s) of
               Inl err \<Rightarrow> next (g\<lparr>pc := ReturnAll, ret := 0\<rparr>) s
             | Inr r \<Rightarrow> next (g\<lparr>pc := RecLock, res := Some r\<rparr>) s)
        | RecLock \<Rightarrow>
            if lock s then None else next (g\<lparr>pc := RecAppend\<rparr>) (s\<lparr>lock := True\<rparr>)
        | RecAppend \<Rightarrow>
            (case res g of
               None \<Rightarrow> None
             | Some r \<Rightarrow>
                 next (g\<lparr>pc := RecUnlock\<rparr>)
                   (s\<lparr>records := records s @ [\<lparr>Partition = partition g, Algo = algo g, Result = r\<rparr>]\<rparr>))
        | RecUnlock \<Rightarrow> next (g\<lparr>pc := ReturnAll, ret := 0\<rparr>) (s\<lparr>lock := False\<rparr>)
        | ReturnAll \<Rightarrow>
            if ret g < length (hs g) then
              (if length (pool s) < capacity s then
                 next (g\<lparr>ret := Suc (ret g)\<rparr>) (s\<lparr>pool := pool s @ [hs g ! ret g]\<rparr>)
               else None)
            else next (g\<lparr>pc := Done\<rparr>) s
        | Done \<Rightarrow> None)"

text \<open>
  An interleaving is the list of the goroutines that step, in order. \<open>exec\<close> runs it;
  \<open>None\<close> when it asks a goroutine to step that cannot.
\<close>

fun exec :: "('p, 'f :: zero) env \<Rightarrow> nat list \<Rightarrow> 'f sched \<Rightarrow> 'f sched option" where
  "exec E [] s = Some s"
| "exec E (i # sch) s = (case step E i s of None \<Rightarrow> None | Some s' \<Rightarrow> exec E sch s')"

text \<open>
  The experiments of the sweep, in the order of the calls of \<^verbatim>\<open>run\<close>, and the
  goroutines \<^verbatim>\<open>run\<close> starts for them: none when the hosts are fewer than the
  elements of the partition.
\<close>

definition sweep :: "(KungFu_AllReduceAlgo \<times> int list) list" where
  "sweep =
     concat (map (\<lambda>a. map (Pair a) [[1], [2], [3], [4], [1, 3], [2, 2], [3, 3], [4, 4]])
       [KungFu_Simple, KungFu_Ring, KungFu_Clique, KungFu_Tree])"

definition run :: "HostSpec list \<Rightarrow> KungFu_AllReduceAlgo \<times> int list \<Rightarrow> 'f goroutine list" where
  "run hosts job =
     (if length hosts < length (snd job) then []
      else [\<lparr>algo = fst job, partition = snd job, pc = ReqLock, got = [], hs = [], ret = 0,
              res = None\<rparr>])"

text \<open>
  The state when all goroutines are started: the channel of capacity \<^verbatim>\<open>len(hosts)\<close>
  holds the hosts, in order. \<open>jobs\<close> are the calls of \<^verbatim>\<open>run\<close>.
\<close>

definition start :: "(KungFu_AllReduceAlgo \<times> int list) list \<Rightarrow> HostSpec list \<Rightarrow> string \<Rightarrow> string list \<Rightarrow> int \<Rightarrow> 'f sched" where
  "start jobs hosts prog0 args0 timeout0 =
     \<lparr>pool = hosts, capacity = length hosts, banker = False, lock = False, records = [],
      goroutines = concat (map (run hosts) jobs), prog = prog0, args = args0, timeout = timeout0\<rparr>"

text \<open>
  \<^verbatim>\<open>runAllExperiments\<close> under the interleaving \<open>sch\<close>: \<^verbatim>\<open>wg.Wait()\<close> returns when
  every goroutine has ended, and the function returns \<^verbatim>\<open>records\<close>; \<open>None\<close> when
  \<open>sch\<close> is not an execution that ends so.
\<close>

definition finished :: "'f sched \<Rightarrow> bool" where
  "finished s = list_all (\<lambda>g. pc g = Done) (goroutines s)"

definition runAllExperiments :: "('p, 'f :: zero) env \<Rightarrow> nat list \<Rightarrow> HostSpec list \<Rightarrow> string \<Rightarrow> string list \<Rightarrow> int \<Rightarrow> 'f Record list option" where
  "runAllExperiments E sch hosts prog0 args0 timeout0 =
     (case exec E sch (start sweep hosts prog0 args0 timeout0) of
        None \<Rightarrow> None
      | Some s \<Rightarrow> if finished s then Some (records s) else None)"

text \<open>
  The hosts a goroutine holds: those it has received from the channel and not sent
  back. \<open>borrowed\<close> lists the hosts held by all goroutines.
\<close>

definition held :: "'f goroutine \<Rightarrow> HostSpec list" where
  "held g =
     (case pc g of
        ReqLock \<Rightarrow> [] | ReqUnlock \<Rightarrow> [] | ReqCheck \<Rightarrow> [] | ReqTick \<Rightarrow> []
      | ReqTake \<Rightarrow> got g | ReqGot \<Rightarrow> got g
      | Experiment \<Rightarrow> hs g | RecLock \<Rightarrow> hs g | RecAppend \<Rightarrow> hs g | RecUnlock \<Rightarrow> hs g
      | ReturnAll \<Rightarrow> drop (ret g) (hs g)
      | Done \<Rightarrow> [])"

definition borrowed :: "'f sched \<Rightarrow> HostSpec list" where
  "borrowed s = concat (map held (goroutines s))"

text \<open>Whether a goroutine is inside its call of \<^verbatim>\<open>requireN\<close>.\<close>

definition in_requireN :: "'f goroutine \<Rightarrow> bool" where
  "in_requireN g = (pc g \<in> set [ReqLock, ReqUnlock, ReqCheck, ReqTake, ReqGot, ReqTick])"

text \<open>
  The record a goroutine has appended to \<^verbatim>\<open>records\<close>: none before its
  \<^verbatim>\<open>append\<close>, and none when \<^verbatim>\<open>runExperiment\<close> gave it no result.
\<close>

definition appended :: "'f goroutine \<Rightarrow> 'f Record list" where
  "appended g =
     (if pc g \<in> set [RecUnlock, ReturnAll, Done] then
        (case res g of
           None \<Rightarrow> []
         | Some r \<Rightarrow> [\<lparr>Partition = partition g, Algo = algo g, Result = r\<rparr>])
      else [])"

text \<open>
  The record of experiment \<open>i\<close> as \<^verbatim>\<open>runExperiment\<close> decides it on the hosts the
  goroutine got: none when it returns an error. \<open>successful\<close> lists them for all
  goroutines.
\<close>

definition record_of :: "('p, 'f :: zero) env \<Rightarrow> 'f sched \<Rightarrow> nat \<Rightarrow> 'f Record list" where
  "record_of E s i =
     (let g = goroutines s ! i in
      case runExperiment E i (hs g) (prog s) (args s) (algo g) (partition g) (timeout s) of
        Inl err \<Rightarrow> []
      | Inr r \<Rightarrow> [\<lparr>Partition = partition g, Algo = algo g, Result = r\<rparr>])"

definition successful :: "('p, 'f :: zero) env \<Rightarrow> 'f sched \<Rightarrow> 'f Record list" where
  "successful E s = concat (map (record_of E s) [0..<length (goroutines s)])"

text \<open>
  What holds of the variable \<open>res\<close> of goroutine \<open>i\<close> at each program counter: it is
  unset up to the call of \<^verbatim>\<open>runExperiment\<close>, and afterwards it is the result of the
  call, if any.
\<close>

definition res_inv :: "('p, 'f :: zero) env \<Rightarrow> 'f sched \<Rightarrow> nat \<Rightarrow> bool" where
  "res_inv E s i =
     (let g = goroutines s ! i in
      if in_requireN g \<or> pc g = Experiment then res g = None
      else res g =
             (case runExperiment E i (hs g) (prog s) (args s) (algo g) (partition g) (timeout s) of
                Inl err \<Rightarrow> None
              | Inr r \<Rightarrow> Some r) \<and>
           (pc g \<in> set [RecLock, RecAppend, RecUnlock] \<longrightarrow> res g \<noteq> None))"

section \<open>An environment for the examples\<close>

text \<open>
  Two hosts of four slots, and collaborators under which every remote run prints the
  line of the benchmark and ends without error; \<^verbatim>\<open>float32\<close> values are shown as
  rationals.
\<close>

definition host1 :: HostSpec where
  "host1 = \<lparr>Hostname = ''10.0.0.1'', Slots = 4, PublicAddr = ''''\<rparr>"

definition host2 :: HostSpec where
  "host2 = \<lparr>Hostname = ''10.0.0.2'', Slots = 4, PublicAddr = ''''\<rparr>"

definition demo :: "(unit, rat) env" where
  "demo = \<lparr>TotalCap = (\<lambda>hosts. sum_list (map Slots hosts)),
           HostSpec_String = Hostname,
           CreateProcs = (\<lambda>jc a. Inr [()]),
           RemoteRunAll = (\<lambda>k t ps. ([\<lparr>Stdout = [''Img/sec per /gpu:0: 123.4 +-5.6'']\<rparr>], None)),
           ParseFloat = (\<lambda>tok. if tok = ''123.4'' then Some (1234 / 10)
                                else if tok = ''5.6'' then Some (56 / 10) else None)\<rparr>"

section \<open>Properties of reschedule\<close>

lemma reschedule_loop_ok:
  "i + length ps \<le> length hosts \<Longrightarrow> \<forall>k<length ps. \<not> Slots (hosts ! (i + k)) < ps ! k \<Longrightarrow>
   reschedule_loop hosts i ps workers =
     Inr (workers @ map2 (\<lambda>h p. h\<lparr>Slots := p\<rparr>) (drop i hosts) ps)"
proof (induction ps arbitrary: i workers)
  case Nil
  then show ?case by simp
next
  case (Cons p ps)
  have i: "i < length hosts" using Cons.prems(1) by simp
  have p: "\<not> Slots (hosts ! i) < p" using Cons.prems(2) by fastforce
  have rest: "\<forall>k<length ps. \<not> Slots (hosts ! (Suc i + k)) < ps ! k"
    using Cons.prems(2) by fastforce
  have "reschedule_loop hosts (Suc i) ps (workers @ [(hosts ! i)\<lparr>Slots := p\<rparr>]) =
     Inr ((workers @ [(hosts ! i)\<lparr>Slots := p\<rparr>]) @ map2 (\<lambda>h p. h\<lparr>Slots := p\<rparr>) (drop (Suc i) hosts) ps)"
    using Cons.IH [OF _ rest] Cons.prems(1) by simp
  moreover have "drop i hosts = hosts ! i # drop (Suc i) hosts"
    using i by (simp add: Cons_nth_drop_Suc)
  ultimately show ?case using i p by simp
qed

lemma reschedule_loop_short:
  "i + length ps \<le> length hosts \<Longrightarrow> k < length ps \<Longrightarrow> Slots (hosts ! (i + k)) < ps ! k \<Longrightarrow>
   reschedule_loop hosts i ps workers = Inl (ErrorString ''host slots not enough'')"
proof (induction ps arbitrary: i k workers)
  case Nil
  then show ?case by simp
next
  case (Cons p ps)
  have i: "i < length hosts" using Cons.prems(1) by simp
  show ?case
  proof (cases "Slots (hosts ! i) < p")
    case True
    then show ?thesis using i by simp
  next
    case False
    then obtain k' where k': "k = Suc k'" using Cons.prems(3) by (cases k) auto
    have "reschedule_loop hosts (Suc i) ps (workers @ [(hosts ! i)\<lparr>Slots := p\<rparr>]) =
       Inl (ErrorString ''host slots not enough'')"
      using Cons.IH [of "Suc i" k'] Cons.prems k' by simp
    then show ?thesis using i False by simp
  qed
qed

text \<open>
  C7. \<open>reschedule\<close> fails exactly when the partition is longer than the host list
  or some host has fewer slots than its partition element; otherwise it returns one
  record per partition element, the i-th being the i-th host with its slots set to the
  i-th partition element.
\<close>

theorem reschedule_spec:
  "((\<exists>e. reschedule hosts part = Inl e) =
      (length hosts < length part \<or>
       (\<exists>i. i < length part \<and> i < length hosts \<and> Slots (hosts ! i) < part ! i))) \<and>
   reschedule hosts part =
     (if length hosts < length part then Inl (ErrorString ''hosts not enough'')
      else if \<exists>i. i < length part \<and> Slots (hosts ! i) < part ! i
        then Inl (ErrorString ''host slots not enough'')
      else Inr (map2 (\<lambda>h p. h\<lparr>Slots := p\<rparr>) hosts part))"
proof (cases "length hosts < length part")
  case True
  then show ?thesis by (simp add: reschedule_def)
next
  case False
  then have le: "0 + length part \<le> length hosts" by simp
  show ?thesis
  proof (cases "\<exists>i. i < length part \<and> Slots (hosts ! i) < part ! i")
    case True
    then obtain k where k: "k < length part" "Slots (hosts ! (0 + k)) < part ! k"
      by auto
    have "reschedule hosts part = Inl (ErrorString ''host slots not enough'')"
      using reschedule_loop_short [OF le k] False by (simp add: reschedule_def)
    moreover have "k < length hosts" using k(1) False by simp
    ultimately show ?thesis using True False k by auto
  next
    case none: False
    then have "\<forall>k<length part. \<not> Slots (hosts ! (0 + k)) < part ! k" by simp
    from reschedule_loop_ok [OF le this, of "[]"]
    have "reschedule hosts part = Inr (map2 (\<lambda>h p. h\<lparr>Slots := p\<rparr>) hosts part)"
      using False by (simp add: reschedule_def)
    then show ?thesis using none False by auto
  qed
qed

theorem reschedule_spec_witness:
  "reschedule [\<lparr>Hostname = ''a'', Slots = 4, PublicAddr = ''''\<rparr>, \<lparr>Hostname = ''b'', Slots = 4, PublicAddr = ''''\<rparr>] [1, 3] =
     Inr [\<lparr>Hostname = ''a'', Slots = 1, PublicAddr = ''''\<rparr>, \<lparr>Hostname = ''b'', Slots = 3, PublicAddr = ''''\<rparr>]"
proof -
  let ?hosts = "[\<lparr>Hostname = ''a'', Slots = 4, PublicAddr = ''''\<rparr>, \<lparr>Hostname = ''b'', Slots = 4, PublicAddr = ''''\<rparr>]"
  have "\<not> Slots (?hosts ! i) < [1, 3] ! i" if "i < length [1, 3 :: int]" for i
  proof -
    from that have "i = 0 \<or> i = 1" by auto
    then show ?thesis by auto
  qed
  then have "\<not> (\<exists>i. i < length [1, 3 :: int] \<and> Slots (?hosts ! i) < [1, 3] ! i)"
    by blast
  then show ?thesis
    using reschedule_spec [of ?hosts "[1, 3]"] by simp
qed

section \<open>Properties of grep\<close>

lemma Contains_sublist: "Contains s substr = sublist substr s"
  by (induction s) (auto simp: sublist_Cons_right)

lemma grep_loop_filter:
  "grep_loop pattern input lines = lines @ filter (\<lambda>line. Contains line pattern) input"
  by (induction input arbitrary: lines) auto

lemma grep_filter: "grep pattern input = filter (\<lambda>line. sublist pattern line) input"
  by (simp add: grep_def grep_loop_filter Contains_sublist)

section \<open>Properties of simpleRun\<close>

text \<open>
  C10. \<open>simpleRun\<close> ends the process with an error exactly when the local runner
  was run and returned an error that is not nil and not the deadline-exceeded error; a
  run whose only error is the deadline-exceeded error returns normally.
\<close>

theorem simpleRun_exit:
  "(simpleRun ForHost LocalRunAll selfIP ps = ExitErr e) =
     (ForHost selfIP ps \<noteq> [] \<and> LocalRunAll (ForHost selfIP ps) = Some e \<and> e \<noteq> DeadlineExceeded) \<and>
   (simpleRun ForHost LocalRunAll selfIP ps = Returned) =
     (ForHost selfIP ps = [] \<or> LocalRunAll (ForHost selfIP ps) = None \<or>
      LocalRunAll (ForHost selfIP ps) = Some DeadlineExceeded)"
  by (auto simp: simpleRun_def Let_def split: option.splits)

theorem simpleRun_exit_witness:
  "simpleRun (\<lambda>ip. filter (\<lambda>p. fst p = ip)) (\<lambda>ps. Some DeadlineExceeded) ''10.0.0.1''
     [(''10.0.0.1'', 0 :: nat), (''10.0.0.2'', 1)] = Returned \<and>
   simpleRun (\<lambda>ip. filter (\<lambda>p. fst p = ip)) (\<lambda>ps. Some (ErrorString ''exit status 1'')) ''10.0.0.1''
     [(''10.0.0.1'', 0 :: nat), (''10.0.0.2'', 1)] = ExitErr (ErrorString ''exit status 1'')"
  using simpleRun_exit [of "\<lambda>ip. filter (\<lambda>p. fst p = ip)" "\<lambda>ps. Some DeadlineExceeded" "''10.0.0.1''"
      "[(''10.0.0.1'', 0 :: nat), (''10.0.0.2'', 1)]" DeadlineExceeded]
    simpleRun_exit [of "\<lambda>ip. filter (\<lambda>p. fst p = ip)" "\<lambda>ps. Some (ErrorString ''exit status 1'')" "''10.0.0.1''"
      "[(''10.0.0.1'', 0 :: nat), (''10.0.0.2'', 1)]" "ErrorString ''exit status 1''"]
  by simp

section \<open>Properties of the interleavings of runAllExperiments\<close>

lemma exec_append:
  "exec E (a @ b) s = (case exec E a s of None \<Rightarrow> None | Some s' \<Rightarrow> exec E b s')"
  by (induction a arbitrary: s) (auto split: option.splits)

lemma exec_invariant:
  assumes "exec E sch s = Some s'" and "P s"
    and "\<And>i s s'. step E i s = Some s' \<Longrightarrow> P s \<Longrightarrow> P s'"
  shows "P s'"
  using assms(1,2)
proof (induction sch arbitrary: s)
  case Nil
  then show ?case by simp
next
  case (Cons i sch)
  then show ?case using assms(3) by (auto split: option.splits)
qed

lemma borrowed_split:
  assumes "i < length gs"
  shows "concat (map held (gs[i := g'])) =
           concat (map held (take i gs)) @ held g' @ concat (map held (drop (Suc i) gs))"
    and "concat (map held gs) =
           concat (map held (take i gs)) @ held (gs ! i) @ concat (map held (drop (Suc i) gs))"
proof -
  show "concat (map held (gs[i := g'])) =
           concat (map held (take i gs)) @ held g' @ concat (map held (drop (Suc i) gs))"
    using assms by (simp add: upd_conv_take_nth_drop)
  have "gs = take i gs @ gs ! i # drop (Suc i) gs"
    using assms by (simp add: id_take_nth_drop)
  then have "concat (map held gs) = concat (map held (take i gs @ gs ! i # drop (Suc i) gs))"
    by simp
  then show "concat (map held gs) =
           concat (map held (take i gs)) @ held (gs ! i) @ concat (map held (drop (Suc i) gs))"
    by simp
qed

text \<open>
  Seen from the pool a step has one of three shapes: it leaves the pool and what the
  goroutine holds as they are, it moves the oldest host of the pool to the goroutine, or
  it moves the next host of the goroutine to the pool, which has room.
\<close>

lemma step_effect:
  assumes "step E i s = Some s'"
  shows "i < length (goroutines s) \<and> capacity s' = capacity s \<and>
         (\<exists>g'. goroutines s' = (goroutines s)[i := g'] \<and>
            (pool s' = pool s \<and> held g' = held (goroutines s ! i) \<or>
             (\<exists>h. pool s = h # pool s' \<and> held g' = held (goroutines s ! i) @ [h]) \<or>
             (\<exists>h. pool s' = pool s @ [h] \<and> held (goroutines s ! i) = h # held g' \<and>
                   length (pool s) < capacity s)))"
proof -
  from assms have i: "i < length (goroutines s)"
    by (auto simp: step_def split: if_splits)
  show ?thesis
  proof (cases "pc (goroutines s ! i)")
    case ReturnAll
    then show ?thesis using assms i
      by (auto simp: step_def Let_def held_def Cons_nth_drop_Suc split: if_splits)
  qed (use assms i in \<open>auto simp: step_def Let_def held_def split: if_splits list.splits sum.splits option.splits\<close>)
qed

lemma step_conserve:
  assumes "step E i s = Some s'"
  shows "mset (pool s') + mset (borrowed s') = mset (pool s) + mset (borrowed s) \<and>
         capacity s' = capacity s"
proof -
  from step_effect [OF assms] obtain g' where
    i: "i < length (goroutines s)" and c: "capacity s' = capacity s" and
    g: "goroutines s' = (goroutines s)[i := g']" and
    e: "pool s' = pool s \<and> held g' = held (goroutines s ! i) \<or>
             (\<exists>h. pool s = h # pool s' \<and> held g' = held (goroutines s ! i) @ [h]) \<or>
             (\<exists>h. pool s' = pool s @ [h] \<and> held (goroutines s ! i) = h # held g' \<and>
                   length (pool s) < capacity s)"
    by blast
  have "mset (pool s') + mset (held g') = mset (pool s) + mset (held (goroutines s ! i))"
    using e by auto
  then show ?thesis
    using c borrowed_split(1) [OF i, of g'] borrowed_split(2) [OF i] g by (simp add: borrowed_def)
qed

lemma borrowed_start: "borrowed (start jobs hosts prog0 args0 timeout0) = []"
  by (auto simp: borrowed_def start_def run_def held_def)

lemma exec_conserve:
  assumes "exec E sch (start jobs hosts prog0 args0 timeout0) = Some s"
  shows "mset (pool s) + mset (borrowed s) = mset hosts \<and> capacity s = length hosts"
proof (rule exec_invariant [OF assms])
  show "mset (pool (start jobs hosts prog0 args0 timeout0)) +
          mset (borrowed (start jobs hosts prog0 args0 timeout0)) = mset hosts \<and>
        capacity (start jobs hosts prog0 args0 timeout0) = length hosts"
    by (simp add: borrowed_start) (simp add: start_def)
next
  fix i s s'
  assume "step E i s = Some s'"
    and "mset (pool s) + mset (borrowed s) = mset hosts \<and> capacity s = length hosts"
  then show "mset (pool s') + mset (borrowed s') = mset hosts \<and> capacity s' = length hosts"
    using step_conserve [of E i s s'] by simp
qed

text \<open>
  C2. Under every interleaving of the goroutines, from the pool filled with all hosts,
  the hosts borrowed (received from the pool and not sent back) are never more than the
  hosts the pool started with: pool and borrowed hosts together are as many as the
  hosts.
\<close>

theorem borrowed_le_total:
  assumes "exec E sch (start jobs hosts prog0 args0 timeout0) = Some s"
  shows "length (borrowed s) \<le> length hosts \<and>
         length (pool s) + length (borrowed s) = length hosts"
proof -
  have "size (mset (pool s) + mset (borrowed s)) = size (mset hosts)"
    using exec_conserve [OF assms] by simp
  then show ?thesis by simp
qed

theorem borrowed_le_total_witness:
  "\<exists>s. exec demo [4, 4, 4, 5, 5, 5, 4, 5] (start sweep [host1, host2] ''prog'' [] 90) = Some s \<and>
       length (borrowed s) = 2 \<and> length (borrowed s) \<le> length [host1, host2] \<and>
       length (pool s) + length (borrowed s) = length [host1, host2]"
proof -
  have "case exec demo [4, 4, 4, 5, 5, 5, 4, 5] (start sweep [host1, host2] ''prog'' [] 90) of
          None \<Rightarrow> False | Some s \<Rightarrow> length (borrowed s) = 2"
    by code_simp
  then obtain s where
    s: "exec demo [4, 4, 4, 5, 5, 5, 4, 5] (start sweep [host1, host2] ''prog'' [] 90) = Some s"
    and b: "length (borrowed s) = 2"
    by (auto split: option.splits)
  show ?thesis using borrowed_le_total [OF s] s b by blast
qed

subsection \<open>One goroutine running alone\<close>

lemma take_loop:
  assumes "i < length (goroutines s)" and "pc (goroutines s ! i) = ReqTake"
    and "length (got (goroutines s ! i)) + m \<le> length (partition (goroutines s ! i))"
    and "m \<le> length (pool s)"
  shows "exec E (replicate m i) s =
           Some (s\<lparr>pool := drop m (pool s),
                   goroutines := (goroutines s)[i := (goroutines s ! i)\<lparr>got := got (goroutines s ! i) @ take m (pool s)\<rparr>]\<rparr>)"
  using assms
proof (induction m arbitrary: s)
  case 0
  then show ?case by simp
next
  case (Suc m)
  let ?g = "goroutines s ! i"
  from Suc.prems obtain h rest where p: "pool s = h # rest" by (cases "pool s") auto
  let ?s1 = "s\<lparr>pool := rest, goroutines := (goroutines s)[i := ?g\<lparr>got := got ?g @ [h]\<rparr>]\<rparr>"
  have st: "step E i s = Some ?s1"
    using Suc.prems p by (simp add: step_def Let_def)
  have "exec E (replicate m i) ?s1 =
          Some (?s1\<lparr>pool := drop m (pool ?s1),
                   goroutines := (goroutines ?s1)[i := (goroutines ?s1 ! i)\<lparr>got := got (goroutines ?s1 ! i) @ take m (pool ?s1)\<rparr>]\<rparr>)"
    by (rule Suc.IH) (use Suc.prems p in auto)
  then show ?case using st p Suc.prems(1) by simp
qed

lemma return_loop:
  assumes "i < length (goroutines s)" and "pc (goroutines s ! i) = ReturnAll"
    and "ret (goroutines s ! i) + m \<le> length (hs (goroutines s ! i))"
    and "length (pool s) + m \<le> capacity s"
  shows "exec E (replicate m i) s =
           Some (s\<lparr>pool := pool s @ take m (drop (ret (goroutines s ! i)) (hs (goroutines s ! i))),
                   goroutines := (goroutines s)[i := (goroutines s ! i)\<lparr>ret := ret (goroutines s ! i) + m\<rparr>]\<rparr>)"
  using assms
proof (induction m arbitrary: s)
  case 0
  then show ?case by simp
next
  case (Suc m)
  let ?g = "goroutines s ! i"
  let ?s1 = "s\<lparr>pool := pool s @ [hs ?g ! ret ?g], goroutines := (goroutines s)[i := ?g\<lparr>ret := Suc (ret ?g)\<rparr>]\<rparr>"
  have st: "step E i s = Some ?s1"
    using Suc.prems by (simp add: step_def Let_def)
  have "exec E (replicate m i) ?s1 =
          Some (?s1\<lparr>pool := pool ?s1 @ take m (drop (ret (goroutines ?s1 ! i)) (hs (goroutines ?s1 ! i))),
                   goroutines := (goroutines ?s1)[i := (goroutines ?s1 ! i)\<lparr>ret := ret (goroutines ?s1 ! i) + m\<rparr>]\<rparr>)"
    by (rule Suc.IH) (use Suc.prems in auto)
  moreover have "drop (ret ?g) (hs ?g) = hs ?g ! ret ?g # drop (Suc (ret ?g)) (hs ?g)"
    using Suc.prems(3) by (simp add: Cons_nth_drop_Suc)
  ultimately show ?case using st Suc.prems(1) by simp
qed


lemma exec_seq:
  "exec E a s = Some s1 \<Longrightarrow> exec E b s1 = Some s2 \<Longrightarrow> exec E (a @ b) s = Some s2"
  by (simp add: exec_append)

lemma replicate_plus5: "replicate (n + 5) x = [x, x, x] @ replicate n x @ [x, x]"
  by (induction n) (simp_all add: numeral_eq_Suc)

lemma requireN_takes:
  assumes i: "i < length (goroutines s)" and pc: "pc (goroutines s ! i) = ReqLock"
    and b: "\<not> banker s"
    and n: "0 < length (partition (goroutines s ! i))"
           "length (partition (goroutines s ! i)) \<le> length (pool s)"
  shows "exec E (replicate (length (partition (goroutines s ! i)) + 5) i) s =
           Some (s\<lparr>banker := False,
                   pool := drop (length (partition (goroutines s ! i))) (pool s),
                   goroutines := (goroutines s)[i := (goroutines s ! i)
                     \<lparr>got := take (length (partition (goroutines s ! i))) (pool s),
                      pc := Experiment,
                      hs := take (length (partition (goroutines s ! i))) (pool s)\<rparr>]\<rparr>)"
proof -
  let ?g = "goroutines s ! i"
  let ?n = "length (partition ?g)"
  let ?s3 = "s\<lparr>banker := False, goroutines := (goroutines s)[i := ?g\<lparr>pc := ReqTake, got := []\<rparr>]\<rparr>"
  have e3: "exec E [i, i, i] s = Some ?s3"
    using i pc b n by (simp add: step_def Let_def)
  let ?s4 = "?s3\<lparr>pool := drop ?n (pool ?s3),
      goroutines := (goroutines ?s3)[i := (goroutines ?s3 ! i)\<lparr>got := got (goroutines ?s3 ! i) @ take ?n (pool ?s3)\<rparr>]\<rparr>"
  have e4: "exec E (replicate ?n i) ?s3 = Some ?s4"
    using take_loop [of i ?s3 ?n E] i n by simp
  let ?s5 = "s\<lparr>banker := False, pool := drop ?n (pool s),
      goroutines := (goroutines s)[i := ?g\<lparr>got := take ?n (pool s), pc := Experiment, hs := take ?n (pool s)\<rparr>]\<rparr>"
  have "pool s \<noteq> []" using n by auto
  then have e5: "exec E [i, i] ?s4 = Some ?s5"
    using i n by (simp add: step_def Let_def)
  have "replicate (?n + 5) i = [i, i, i] @ replicate ?n i @ [i, i]"
    by (rule replicate_plus5)
  then show ?thesis
    using e3 e4 e5 by (simp only: exec_append option.case)
qed

lemma requireN_polls:
  assumes i: "i < length (goroutines s)" and pc: "pc (goroutines s ! i) = ReqLock"
    and b: "\<not> banker s"
    and n: "length (pool s) < length (partition (goroutines s ! i))"
  shows "exec E (replicate 5 i) s =
           Some (s\<lparr>banker := False,
                   goroutines := (goroutines s)[i := (goroutines s ! i)\<lparr>got := [], pc := ReqLock\<rparr>]\<rparr>)"
proof -
  have "replicate 5 i = [i, i, i, i, i]" by (simp add: numeral_eq_Suc)
  then show ?thesis using i pc b n by (simp add: step_def Let_def)
qed


lemma returnAll_solo:
  assumes i: "i < length (goroutines s)" and pc: "pc (goroutines s ! i) = ReturnAll"
    and r: "ret (goroutines s ! i) = 0"
    and c: "length (pool s) + length (hs (goroutines s ! i)) \<le> capacity s"
  shows "exec E (replicate (length (hs (goroutines s ! i)) + 1) i) s =
           Some (s\<lparr>pool := pool s @ hs (goroutines s ! i),
                   goroutines := (goroutines s)[i := (goroutines s ! i)
                     \<lparr>ret := length (hs (goroutines s ! i)), pc := Done\<rparr>]\<rparr>)"
proof -
  let ?g = "goroutines s ! i"
  let ?n = "length (hs ?g)"
  let ?s1 = "s\<lparr>pool := pool s @ take ?n (drop (ret ?g) (hs ?g)),
                   goroutines := (goroutines s)[i := ?g\<lparr>ret := ret ?g + ?n\<rparr>]\<rparr>"
  have e1: "exec E (replicate ?n i) s = Some ?s1"
    using return_loop [of i s ?n E] i pc r c by simp
  have e2: "exec E [i] ?s1 = Some (s\<lparr>pool := pool s @ hs ?g,
                   goroutines := (goroutines s)[i := ?g\<lparr>ret := ?n, pc := Done\<rparr>]\<rparr>)"
    using i pc r by (simp add: step_def Let_def)
  have "replicate (?n + 1) i = replicate ?n i @ [i]"
    by (simp add: replicate_append_same)
  then show ?thesis using e1 e2 by (simp only: exec_append option.case)
qed


lemma experiment_fails_solo:
  assumes i: "i < length (goroutines s)" and pc: "pc (goroutines s ! i) = Experiment"
    and c: "length (pool s) + length (hs (goroutines s ! i)) \<le> capacity s"
    and f: "runExperiment E i (hs (goroutines s ! i)) (prog s) (args s) (algo (goroutines s ! i))
              (partition (goroutines s ! i)) (timeout s) = Inl err"
  shows "exec E (replicate (length (hs (goroutines s ! i)) + 2) i) s =
           Some (s\<lparr>pool := pool s @ hs (goroutines s ! i),
                   goroutines := (goroutines s)[i := (goroutines s ! i)
                     \<lparr>ret := length (hs (goroutines s ! i)), pc := Done\<rparr>]\<rparr>)"
proof -
  let ?g = "goroutines s ! i"
  let ?n = "length (hs ?g)"
  let ?s1 = "s\<lparr>goroutines := (goroutines s)[i := ?g\<lparr>pc := ReturnAll, ret := 0\<rparr>]\<rparr>"
  have e1: "exec E [i] s = Some ?s1"
    using i pc f by (simp add: step_def Let_def)
  have e2: "exec E (replicate (length (hs (goroutines ?s1 ! i)) + 1) i) ?s1 =
           Some (?s1\<lparr>pool := pool ?s1 @ hs (goroutines ?s1 ! i),
                   goroutines := (goroutines ?s1)[i := (goroutines ?s1 ! i)
                     \<lparr>ret := length (hs (goroutines ?s1 ! i)), pc := Done\<rparr>]\<rparr>)"
    by (rule returnAll_solo) (use i c in auto)
  have e3: "exec E (replicate (?n + 1) i) ?s1 =
           Some (s\<lparr>pool := pool s @ hs ?g,
                   goroutines := (goroutines s)[i := ?g\<lparr>ret := ?n, pc := Done\<rparr>]\<rparr>)"
    using e2 i by simp
  have eq: "replicate (?n + 2) i = [i] @ replicate (?n + 1) i"
    by simp
  show ?thesis unfolding eq by (rule exec_seq [OF e1 e3])
qed

lemma experiment_succeeds_solo:
  assumes i: "i < length (goroutines s)" and pc: "pc (goroutines s ! i) = Experiment"
    and l: "\<not> lock s"
    and c: "length (pool s) + length (hs (goroutines s ! i)) \<le> capacity s"
    and f: "runExperiment E i (hs (goroutines s ! i)) (prog s) (args s) (algo (goroutines s ! i))
              (partition (goroutines s ! i)) (timeout s) = Inr r"
  shows "exec E (replicate (length (hs (goroutines s ! i)) + 5) i) s =
           Some (s\<lparr>lock := False,
                   records := records s @ [\<lparr>Partition = partition (goroutines s ! i),
                     Algo = algo (goroutines s ! i), Result = r\<rparr>],
                   pool := pool s @ hs (goroutines s ! i),
                   goroutines := (goroutines s)[i := (goroutines s ! i)
                     \<lparr>res := Some r, ret := length (hs (goroutines s ! i)), pc := Done\<rparr>]\<rparr>)"
proof -
  let ?g = "goroutines s ! i"
  let ?n = "length (hs ?g)"
  let ?s1 = "s\<lparr>lock := False,
                records := records s @ [\<lparr>Partition = partition ?g, Algo = algo ?g, Result = r\<rparr>],
                goroutines := (goroutines s)[i := ?g\<lparr>res := Some r, pc := ReturnAll, ret := 0\<rparr>]\<rparr>"
  have e1: "exec E [i, i, i, i] s = Some ?s1"
    using i pc f l by (simp add: step_def Let_def)
  have e2: "exec E (replicate (length (hs (goroutines ?s1 ! i)) + 1) i) ?s1 =
           Some (?s1\<lparr>pool := pool ?s1 @ hs (goroutines ?s1 ! i),
                   goroutines := (goroutines ?s1)[i := (goroutines ?s1 ! i)
                     \<lparr>ret := length (hs (goroutines ?s1 ! i)), pc := Done\<rparr>]\<rparr>)"
    by (rule returnAll_solo) (use i c in auto)
  have e3: "exec E (replicate (?n + 1) i) ?s1 =
           Some (s\<lparr>lock := False,
                   records := records s @ [\<lparr>Partition = partition ?g, Algo = algo ?g, Result = r\<rparr>],
                   pool := pool s @ hs ?g,
                   goroutines := (goroutines s)[i := ?g\<lparr>res := Some r, ret := ?n, pc := Done\<rparr>]\<rparr>)"
    using e2 i by simp
  have eq: "replicate (?n + 5) i = [i, i, i, i] @ replicate (?n + 1) i"
    by (simp add: numeral_eq_Suc)
  show ?thesis unfolding eq by (rule exec_seq [OF e1 e3])
qed


lemma goroutine_solo:
  assumes i: "i < length (goroutines s)" and pc: "pc (goroutines s ! i) = ReqLock"
    and b: "\<not> banker s" and l: "\<not> lock s"
    and n: "0 < length (partition (goroutines s ! i))"
           "length (partition (goroutines s ! i)) \<le> length (pool s)"
    and c: "length (pool s) \<le> capacity s"
  shows "\<exists>k s'. exec E (replicate k i) s = Some s' \<and> \<not> banker s' \<and> \<not> lock s' \<and>
           length (pool s') = length (pool s) \<and> capacity s' = capacity s \<and>
           length (goroutines s') = length (goroutines s) \<and>
           pc (goroutines s' ! i) = Done \<and>
           (\<forall>j. j \<noteq> i \<longrightarrow> goroutines s' ! j = goroutines s ! j)"
proof -
  let ?g = "goroutines s ! i"
  let ?n = "length (partition ?g)"
  define s1 where "s1 = s\<lparr>banker := False, pool := drop ?n (pool s),
      goroutines := (goroutines s)[i := ?g\<lparr>got := take ?n (pool s), pc := Experiment, hs := take ?n (pool s)\<rparr>]\<rparr>"
  have e1: "exec E (replicate (?n + 5) i) s = Some s1"
    unfolding s1_def by (rule requireN_takes [OF i pc b n])
  have s1: "i < length (goroutines s1)" "pc (goroutines s1 ! i) = Experiment" "\<not> lock s1"
    "length (pool s1) + length (hs (goroutines s1 ! i)) \<le> capacity s1"
    using i l n c by (simp_all add: s1_def)
  have p1: "\<not> banker s1" "length (pool s1) + length (hs (goroutines s1 ! i)) = length (pool s)"
    "capacity s1 = capacity s" "length (goroutines s1) = length (goroutines s)"
    "\<forall>j. j \<noteq> i \<longrightarrow> goroutines s1 ! j = goroutines s ! j"
    using i n by (simp_all add: s1_def)
  show ?thesis
  proof (cases "runExperiment E i (hs (goroutines s1 ! i)) (prog s1) (args s1) (algo (goroutines s1 ! i))
              (partition (goroutines s1 ! i)) (timeout s1)")
    case (Inl err)
    from experiment_fails_solo [OF s1(1,2,4) Inl]
    obtain s2 where e2: "exec E (replicate (length (hs (goroutines s1 ! i)) + 2) i) s1 = Some s2"
      and s2: "s2 = s1\<lparr>pool := pool s1 @ hs (goroutines s1 ! i),
                   goroutines := (goroutines s1)[i := (goroutines s1 ! i)
                     \<lparr>ret := length (hs (goroutines s1 ! i)), pc := Done\<rparr>]\<rparr>"
      by simp
    have "exec E (replicate (?n + 5) i @ replicate (length (hs (goroutines s1 ! i)) + 2) i) s = Some s2"
      by (rule exec_seq [OF e1 e2])
    then have "exec E (replicate (?n + 5 + (length (hs (goroutines s1 ! i)) + 2)) i) s = Some s2"
      by (simp only: replicate_add)
    moreover have "\<not> banker s2 \<and> \<not> lock s2 \<and>
           length (pool s2) = length (pool s) \<and> capacity s2 = capacity s \<and>
           length (goroutines s2) = length (goroutines s) \<and>
           pc (goroutines s2 ! i) = Done \<and>
           (\<forall>j. j \<noteq> i \<longrightarrow> goroutines s2 ! j = goroutines s ! j)"
      using s1 p1 by (simp add: s2)
    ultimately show ?thesis by blast
  next
    case (Inr r)
    from experiment_succeeds_solo [OF s1(1,2,3,4) Inr]
    obtain s2 where e2: "exec E (replicate (length (hs (goroutines s1 ! i)) + 5) i) s1 = Some s2"
      and s2: "s2 = s1\<lparr>lock := False,
                   records := records s1 @ [\<lparr>Partition = partition (goroutines s1 ! i),
                     Algo = algo (goroutines s1 ! i), Result = r\<rparr>],
                   pool := pool s1 @ hs (goroutines s1 ! i),
                   goroutines := (goroutines s1)[i := (goroutines s1 ! i)
                     \<lparr>res := Some r, ret := length (hs (goroutines s1 ! i)), pc := Done\<rparr>]\<rparr>"
      by simp
    have "exec E (replicate (?n + 5) i @ replicate (length (hs (goroutines s1 ! i)) + 5) i) s = Some s2"
      by (rule exec_seq [OF e1 e2])
    then have "exec E (replicate (?n + 5 + (length (hs (goroutines s1 ! i)) + 5)) i) s = Some s2"
      by (simp only: replicate_add)
    moreover have "\<not> banker s2 \<and> \<not> lock s2 \<and>
           length (pool s2) = length (pool s) \<and> capacity s2 = capacity s \<and>
           length (goroutines s2) = length (goroutines s) \<and>
           pc (goroutines s2 ! i) = Done \<and>
           (\<forall>j. j \<noteq> i \<longrightarrow> goroutines s2 ! j = goroutines s ! j)"
      using s1 p1 by (simp add: s2)
    ultimately show ?thesis by blast
  qed
qed

text \<open>The goroutines before \<open>m\<close> have ended, the others have not started.\<close>

lemma sequential_completion:
  assumes "\<not> banker s" and "\<not> lock s" and "length (pool s) = capacity s"
    and "\<forall>j<length (goroutines s).
           if j < m then pc (goroutines s ! j) = Done
           else pc (goroutines s ! j) = ReqLock \<and> 0 < length (partition (goroutines s ! j)) \<and>
                length (partition (goroutines s ! j)) \<le> capacity s"
    and "m \<le> length (goroutines s)"
  shows "\<exists>sch s'. exec E sch s = Some s' \<and> finished s'"
  using assms
proof (induction "length (goroutines s) - m" arbitrary: s m)
  case 0
  then have "\<forall>j<length (goroutines s). pc (goroutines s ! j) = Done" by auto
  then have "finished s" by (simp add: finished_def list_all_length)
  then have "exec E [] s = Some s \<and> finished s" by simp
  then show ?case by blast
next
  case (Suc d)
  then have m: "m < length (goroutines s)" by simp
  with Suc.prems(4) have g: "pc (goroutines s ! m) = ReqLock"
    "0 < length (partition (goroutines s ! m))"
    "length (partition (goroutines s ! m)) \<le> length (pool s)"
    using Suc.prems(3) by auto
  from goroutine_solo [OF m g(1) Suc.prems(1,2) g(2,3), of E] Suc.prems(3)
  obtain k s1 where e1: "exec E (replicate k m) s = Some s1" and
    s1: "\<not> banker s1" "\<not> lock s1" "length (pool s1) = length (pool s)" "capacity s1 = capacity s"
      "length (goroutines s1) = length (goroutines s)" "pc (goroutines s1 ! m) = Done"
      "\<forall>j. j \<noteq> m \<longrightarrow> goroutines s1 ! j = goroutines s ! j"
    by auto
  have "\<exists>sch s'. exec E sch s1 = Some s' \<and> finished s'"
  proof (rule Suc.hyps(1) [of s1 "Suc m"])
    show "d = length (goroutines s1) - Suc m" using Suc.hyps(2) s1(5) by simp
    show "\<not> banker s1" "\<not> lock s1" by (rule s1)+
    show "length (pool s1) = capacity s1" using s1 Suc.prems(3) by simp
    show "Suc m \<le> length (goroutines s1)" using m s1(5) by simp
    show "\<forall>j<length (goroutines s1).
           if j < Suc m then pc (goroutines s1 ! j) = Done
           else pc (goroutines s1 ! j) = ReqLock \<and> 0 < length (partition (goroutines s1 ! j)) \<and>
                length (partition (goroutines s1 ! j)) \<le> capacity s1"
    proof (intro allI impI)
      fix j assume j: "j < length (goroutines s1)"
      show "if j < Suc m then pc (goroutines s1 ! j) = Done
           else pc (goroutines s1 ! j) = ReqLock \<and> 0 < length (partition (goroutines s1 ! j)) \<and>
                length (partition (goroutines s1 ! j)) \<le> capacity s1"
      proof (cases "j = m")
        case True
        then show ?thesis using s1(6) by simp
      next
        case False
        then have "goroutines s1 ! j = goroutines s ! j" using s1(7) by simp
        then show ?thesis using Suc.prems(4) j s1(4,5) False by (auto simp: less_Suc_eq)
      qed
    qed
  qed
  then obtain sch s' where "exec E sch s1 = Some s'" "finished s'" by blast
  with e1 have "exec E (replicate k m @ sch) s = Some s' \<and> finished s'"
    by (simp add: exec_append)
  then show ?case by blast
qed

end
